theory Spec2Isabelle
  imports Main
begin

section \<open>Text\<close>

text \<open>
  A Python \<open>str\<close> is a sequence of code points. A \<^typ>\<open>char\<close> stands for one code
  point in the range U+0000 .. U+00FF, and a \<^typ>\<open>string\<close> for a \<open>str\<close> whose code
  points all lie in that range. The classes below are those of CPython's \<open>re\<close> and
  \<open>str\<close> on this range.
\<close>

definition codepoint :: "char \<Rightarrow> nat" where
  "codepoint c = of_char c"

definition newline :: char where
  "newline = CHR 0x0A"

definition carriage_return :: char where
  "carriage_return = CHR 0x0D"

definition tab :: char where
  "tab = CHR 0x09"

text \<open>\<open>\d\<close>: the decimal digits; below U+0100 these are \<open>0\<close> .. \<open>9\<close> only.\<close>

definition is_decimal :: "char \<Rightarrow> bool" where
  "is_decimal c \<longleftrightarrow> 48 \<le> codepoint c \<and> codepoint c \<le> 57"

text \<open>\<open>\s\<close>: the characters for which \<open>str.isspace\<close> holds.\<close>

definition is_space :: "char \<Rightarrow> bool" where
  "is_space c \<longleftrightarrow>
     (9 \<le> codepoint c \<and> codepoint c \<le> 13) \<or> (28 \<le> codepoint c \<and> codepoint c \<le> 32)
     \<or> codepoint c = 133 \<or> codepoint c = 160"

definition is_ascii_upper :: "char \<Rightarrow> bool" where
  "is_ascii_upper c \<longleftrightarrow> 65 \<le> codepoint c \<and> codepoint c \<le> 90"

definition is_ascii_lower :: "char \<Rightarrow> bool" where
  "is_ascii_lower c \<longleftrightarrow> 97 \<le> codepoint c \<and> codepoint c \<le> 122"

text \<open>\<open>\w\<close>: alphanumeric characters and the underscore.\<close>

definition is_word :: "char \<Rightarrow> bool" where
  "is_word c \<longleftrightarrow>
     is_decimal c \<or> is_ascii_upper c \<or> is_ascii_lower c \<or> codepoint c = 95
     \<or> codepoint c = 170 \<or> codepoint c = 178 \<or> codepoint c = 179 \<or> codepoint c = 181
     \<or> codepoint c = 185 \<or> codepoint c = 186 \<or> (188 \<le> codepoint c \<and> codepoint c \<le> 190)
     \<or> (192 \<le> codepoint c \<and> codepoint c \<le> 214) \<or> (216 \<le> codepoint c \<and> codepoint c \<le> 246)
     \<or> 248 \<le> codepoint c"

text \<open>\<open>str.lower\<close>, one character at a time.\<close>

definition lower_char :: "char \<Rightarrow> char" where
  "lower_char c =
     (if is_ascii_upper c \<or> (192 \<le> codepoint c \<and> codepoint c \<le> 222 \<and> codepoint c \<noteq> 215)
      then char_of (codepoint c + 32) else c)"

definition lower :: "string \<Rightarrow> string" where
  "lower s = map lower_char s"

text \<open>\<open>needle in haystack\<close> on strings.\<close>

fun contains :: "string \<Rightarrow> string \<Rightarrow> bool" where
  "contains needle [] = (needle = [])"
| "contains needle (c # cs) =
     (take (length needle) (c # cs) = needle \<or> contains needle cs)"

text \<open>\<open>str.endswith\<close>.\<close>

definition endswith :: "string \<Rightarrow> string \<Rightarrow> bool" where
  "endswith s suffix \<longleftrightarrow>
     length suffix \<le> length s \<and> drop (length s - length suffix) s = suffix"

text \<open>\<open>s.replace(old, new)\<close> for a non-empty \<open>old\<close>: every occurrence, left to right.\<close>

fun replace :: "string \<Rightarrow> string \<Rightarrow> string \<Rightarrow> string" where
  "replace old new [] = []"
| "replace old new (c # cs) =
     (if old \<noteq> [] \<and> take (length old) (c # cs) = old
      then new @ replace old new (drop (length old) (c # cs))
      else c # replace old new cs)"

section \<open>Regular expressions\<close>

text \<open>
  The patterns of the program use literals, \<open>.\<close>, bracket sets, \<open>\d\<close>, \<open>\s\<close>,
  \<open>\b\<close>, concatenation, the greedy \<open>?\<close>, \<open>*\<close>, \<open>+\<close> and counted repetitions,
  the lazy \<open>*?\<close> and groups.
\<close>

datatype item = Lit char | Range char char | Digits | Spaces

fun item_has :: "item \<Rightarrow> char \<Rightarrow> bool" where
  "item_has (Lit x) c = (c = x)"
| "item_has (Range lo hi) c = (codepoint lo \<le> codepoint c \<and> codepoint c \<le> codepoint hi)"
| "item_has Digits c = is_decimal c"
| "item_has Spaces c = is_space c"

datatype regex =
    Eps
  | Chr char
  | Dot
  | Cls "item list"
  | Seq regex regex
  | Opt regex
  | Star regex
  | Lazy regex
  | Group nat regex
  | WordB

text \<open>
  A matcher state: the text left of the cursor (nearest character first), the text right
  of it, and the groups closed so far (latest first).
\<close>

type_synonym mstate = "string \<times> string \<times> (nat \<times> string) list"

definition remaining :: "mstate \<Rightarrow> nat" where
  "remaining s = length (fst (snd s))"

definition at_boundary :: "string \<Rightarrow> string \<Rightarrow> bool" where
  "at_boundary b a \<longleftrightarrow>
     (case b of [] \<Rightarrow> False | c # _ \<Rightarrow> is_word c)
       \<noteq> (case a of [] \<Rightarrow> False | c # _ \<Rightarrow> is_word c)"

definition step :: "(char \<Rightarrow> bool) \<Rightarrow> mstate \<Rightarrow> mstate list" where
  "step P s =
     (case s of (b, a, g) \<Rightarrow>
        (case a of [] \<Rightarrow> [] | x # xs \<Rightarrow> if P x then [(x # b, xs, g)] else []))"

text \<open>
  All the ways the backtracking matcher can match a pattern from a state, in the order
  it tries them; the first is the one it reports.
\<close>

function run :: "regex \<Rightarrow> mstate \<Rightarrow> mstate list" where
  "run Eps s = [s]"
| "run (Chr c) s = step (\<lambda>x. x = c) s"
| "run Dot s = step (\<lambda>x. x \<noteq> newline) s"
| "run (Cls is) s = step (\<lambda>x. \<exists>i \<in> set is. item_has i x) s"
| "run (Seq r1 r2) s = concat (map (run r2) (run r1 s))"
| "run (Opt r) s = run r s @ [s]"
| "run (Star r) s =
     concat (map (\<lambda>s'. if remaining s' < remaining s then run (Star r) s' else [])
                 (run r s)) @ [s]"
| "run (Lazy r) s =
     s # concat (map (\<lambda>s'. if remaining s' < remaining s then run (Lazy r) s' else [])
                     (run r s))"
| "run (Group n r) s =
     map (\<lambda>(b', a', g'). (b', a', (n, rev (take (length b' - length (fst s)) b')) # g'))
         (run r s)"
| "run WordB s = (if at_boundary (fst s) (fst (snd s)) then [s] else [])"
  by pat_completeness auto
termination
  by (relation "inv_image (less_than <*lex*> less_than) (\<lambda>(r, s). (size r, remaining s))")
     auto

text \<open>\<open>r{n}\<close>, a literal text, and \<open>r+\<close>.\<close>

fun rep :: "nat \<Rightarrow> regex \<Rightarrow> regex" where
  "rep 0 r = Eps"
| "rep (Suc n) r = Seq r (rep n r)"

fun lits :: "string \<Rightarrow> regex" where
  "lits [] = Eps"
| "lits (c # cs) = Seq (Chr c) (lits cs)"

definition many1 :: "regex \<Rightarrow> regex" where
  "many1 r = Seq r (Star r)"

text \<open>
  One attempt at one position. The whole match is group 0. After an empty match
  \<open>findall\<close> asks for a match that is not empty at the same position
  (\<open>must_advance\<close>).
\<close>

definition attempt :: "bool \<Rightarrow> regex \<Rightarrow> string \<Rightarrow> string \<Rightarrow> mstate list" where
  "attempt must_advance r b a =
     (if must_advance
      then filter (\<lambda>s. remaining s < length a) (run (Group 0 r) (b, a, []))
      else run (Group 0 r) (b, a, []))"

text \<open>The leftmost position with a match, and the first match there.\<close>

fun scan :: "bool \<Rightarrow> regex \<Rightarrow> string \<Rightarrow> string \<Rightarrow> mstate option" where
  "scan must_advance r b [] =
     (case attempt must_advance r b [] of [] \<Rightarrow> None | s # _ \<Rightarrow> Some s)"
| "scan must_advance r b (x # xs) =
     (case attempt must_advance r b (x # xs) of
        [] \<Rightarrow> scan False r (x # b) xs
      | s # _ \<Rightarrow> Some s)"

text \<open>\<open>re.search(pattern, text)\<close>: a match object or \<open>None\<close>.\<close>

definition re_search :: "regex \<Rightarrow> string \<Rightarrow> mstate option" where
  "re_search r s = scan False r [] s"

text \<open>
  \<open>match.group(n)\<close>. A group that took no part in the match is \<open>None\<close> in Python;
  it is the empty text here. The patterns below close every group they open.
\<close>

definition match_group :: "mstate \<Rightarrow> nat \<Rightarrow> string" where
  "match_group m n = (case map_of (snd (snd m)) n of None \<Rightarrow> [] | Some t \<Rightarrow> t)"

declare run.simps(7,8) [simp del]

lemma step_moves:
  "s' \<in> set (step P s) \<Longrightarrow>
     \<exists>x. fst (snd s) = x # fst (snd s') \<and> fst s' = x # fst s \<and> P x"
  by (auto simp: step_def split: prod.splits list.splits if_splits)

lemma run_moves:
  "s' \<in> set (run r s) \<Longrightarrow>
     \<exists>m. fst (snd s) = m @ fst (snd s') \<and> fst s' = rev m @ fst s"
proof (induction r s arbitrary: s' rule: run.induct)
  case (5 r1 r2 s)
  then obtain s1 where s1: "s1 \<in> set (run r1 s)" "s' \<in> set (run r2 s1)"
    by auto
  from "5.IH"(1) [OF s1(1)] "5.IH"(2) [OF s1(1) s1(2)] show ?case
    by auto
next
  case (7 r s)
  show ?case
  proof (cases "s' = s")
    case True
    then show ?thesis by simp
  next
    case False
    with "7.prems" run.simps(7) [of r s] obtain s1 where s1: "s1 \<in> set (run r s)"
      "remaining s1 < remaining s" "s' \<in> set (run (Star r) s1)"
      by (auto split: if_splits)
    from "7.IH"(1) [OF s1(1)] "7.IH"(2) [OF s1(1) s1(2) s1(3)] show ?thesis
      by auto
  qed
next
  case (8 r s)
  show ?case
  proof (cases "s' = s")
    case True
    then show ?thesis by simp
  next
    case False
    with "8.prems" run.simps(8) [of r s] obtain s1 where s1: "s1 \<in> set (run r s)"
      "remaining s1 < remaining s" "s' \<in> set (run (Lazy r) s1)"
      by (auto split: if_splits)
    from "8.IH"(1) [OF s1(1)] "8.IH"(2) [OF s1(1) s1(2) s1(3)] show ?thesis
      by auto
  qed
qed (auto dest!: step_moves split: if_splits)

lemma attempt_group:
  assumes "m \<in> set (attempt adv r b a)"
  shows "a = match_group m 0 @ fst (snd m) \<and> fst m = rev (match_group m 0) @ b
         \<and> (adv \<longrightarrow> match_group m 0 \<noteq> [])"
proof -
  from assms obtain s where s: "s \<in> set (run r (b, a, []))"
    and m: "m = (fst s, fst (snd s), (0, rev (take (length (fst s) - length b) (fst s))) # snd (snd s))"
    and adv: "adv \<longrightarrow> remaining m < length a"
    by (auto simp: attempt_def split: if_splits prod.splits)
  from run_moves [OF s] obtain t where t: "a = t @ fst (snd s)" "fst s = rev t @ b"
    by auto
  have g: "match_group m 0 = t"
    using t by (simp add: m match_group_def)
  from adv t have "adv \<longrightarrow> t \<noteq> []"
    by (auto simp: m remaining_def)
  with t g show ?thesis
    by (simp add: m)
qed

lemma progress_arith:
  "a = g @ rest \<Longrightarrow> (adv \<longrightarrow> g \<noteq> []) \<Longrightarrow>
     2 * length rest + (if g = [] then 0 else 1) < 2 * length a + (if adv then 0 else (1::nat))"
  by (cases g) auto

lemma attempt_progress:
  assumes "m \<in> set (attempt adv r b a)"
  shows "2 * remaining m + (if match_group m 0 = [] then 0 else 1)
           < 2 * length a + (if adv then 0 else 1)"
proof -
  from attempt_group [OF assms] have "a = match_group m 0 @ fst (snd m)"
    and "adv \<longrightarrow> match_group m 0 \<noteq> []"
    by blast+
  from progress_arith [OF this] show ?thesis
    by (simp only: remaining_def)
qed

lemma scan_progress:
  "scan adv r b a = Some m \<Longrightarrow>
     2 * remaining m + (if match_group m 0 = [] then 0 else 1) < 2 * length a + (if adv then 0 else 1)"
proof (induction adv r b a rule: scan.induct)
  case (1 adv r b)
  show ?case
  proof (cases "attempt adv r b []")
    case Nil
    with "1.prems" show ?thesis by simp
  next
    case (Cons m' ms)
    with "1.prems" have "m \<in> set (attempt adv r b [])"
      by simp
    then show ?thesis
      by (rule attempt_progress)
  qed
next
  case (2 adv r b x xs)
  show ?case
  proof (cases "attempt adv r b (x # xs)")
    case Nil
    with "2.prems" have "scan False r (x # b) xs = Some m"
      by simp
    from "2.IH" [OF Nil this]
    have "2 * remaining m + (if match_group m 0 = [] then 0 else 1) < 2 * length xs + 1"
      by simp
    then show ?thesis
      by (simp split: if_splits)
  next
    case (Cons m' ms)
    with "2.prems" have "m \<in> set (attempt adv r b (x # xs))"
      by simp
    then show ?thesis
      by (rule attempt_progress)
  qed
qed

text \<open>
  \<open>re.findall(pattern, text)\<close> for a pattern without groups: the texts of the matches
  found one after the other, each search starting where the last match ended.
\<close>

function findall_from :: "bool \<Rightarrow> regex \<Rightarrow> string \<Rightarrow> string \<Rightarrow> string list" where
  "findall_from must_advance r b a =
     (case scan must_advance r b a of
        None \<Rightarrow> []
      | Some m \<Rightarrow> match_group m 0 # findall_from (match_group m 0 = []) r (fst m) (fst (snd m)))"
  by pat_completeness auto
termination
  by (relation "measure (\<lambda>(adv, r, b, a). 2 * length a + (if adv then 0 else 1))")
     (auto dest!: scan_progress simp: remaining_def split: if_splits)

definition findall :: "regex \<Rightarrow> string \<Rightarrow> string list" where
  "findall r s = findall_from False r [] s"

section \<open>The extractor\<close>

text \<open>\<open>\d\<close>, \<open>[-.\s]\<close>, \<open>[APM]\<close>, \<open>[A-Z]\<close>, \<open>[a-z]\<close> and \<open>\s\<close>.\<close>

definition digit :: regex where
  "digit = Cls [Digits]"

definition separator :: regex where
  "separator = Cls [Lit CHR ''-'', Lit CHR ''.'', Spaces]"

definition apm :: regex where
  "apm = Cls [Lit CHR ''A'', Lit CHR ''P'', Lit CHR ''M'']"

definition capital :: regex where
  "capital = Cls [Range CHR ''A'' CHR ''Z'']"

definition small :: regex where
  "small = Cls [Range CHR ''a'' CHR ''z'']"

definition space :: regex where
  "space = Cls [Spaces]"

text \<open>\<^verbatim>\<open>\[\d{2}/\d{2}/\d{2}, \d{1,2}:\d{2} [APM]{2}\] \<close>, with the space that ends it.\<close>

definition stamp_pattern :: regex where
  "stamp_pattern =
     Seq (Chr CHR ''['') (Seq (rep 2 digit) (Seq (Chr CHR ''/'') (Seq (rep 2 digit)
     (Seq (Chr CHR ''/'') (Seq (rep 2 digit) (Seq (lits '', '') (Seq digit (Seq (Opt digit)
     (Seq (Chr CHR '':'') (Seq (rep 2 digit) (Seq (Chr CHR '' '') (Seq (rep 2 apm)
     (lits ''] '')))))))))))))"

text \<open>\<^verbatim>\<open>\[\d{2}/\d{2}/\d{2}, \d{1,2}:\d{2} [APM]{2}\] (.*?): (.*)\<close>\<close>

definition line_pattern :: regex where
  "line_pattern =
     Seq stamp_pattern (Seq (Group 1 (Lazy Dot)) (Seq (lits '': '') (Group 2 (Star Dot))))"

text \<open>\<^verbatim>\<open>\b\d{3}[-.\s]?\d{3}[-.\s]?\d{4}\b\<close>\<close>

definition phone_pattern :: regex where
  "phone_pattern =
     Seq WordB (Seq (rep 3 digit) (Seq (Opt separator) (Seq (rep 3 digit)
     (Seq (Opt separator) (Seq (rep 4 digit) WordB)))))"

text \<open>\<^verbatim>\<open>([A-Z][a-z]+(?:\s[A-Z][a-z]+)*)\<close>\<close>

definition capital_word :: regex where
  "capital_word = Seq capital (many1 small)"

definition business_pattern :: regex where
  "business_pattern = Group 1 (Seq capital_word (Star (Seq space capital_word)))"

record referral =
  sender :: string
  business_name :: string
  contact :: string
  message :: string

definition keyword_list :: "string list" where
  "keyword_list = [''recommend'', ''try'', ''call'', ''great'', ''looking for'', ''know a good'',
     ''fixed my'', ''super reliable'']"

text \<open>The body of the loop over the lines: the record a line gives, if it gives one.\<close>

definition extract_line :: "string \<Rightarrow> referral option" where
  "extract_line line =
     (case re_search line_pattern line of
        None \<Rightarrow> None
      | Some m \<Rightarrow>
          (let sender = match_group m 1; message = match_group m 2
           in if \<exists>keyword \<in> set keyword_list. contains keyword (lower message)
              then
                (let phone_numbers = findall phone_pattern message;
                     business_match = re_search business_pattern message;
                     business_name =
                       (case business_match of
                          Some bm \<Rightarrow> match_group bm 0
                        | None \<Rightarrow> ''Unknown Business'')
                 in Some \<lparr>sender = sender, business_name = business_name,
                      contact =
                        (case phone_numbers of
                           p # _ \<Rightarrow> p
                         | [] \<Rightarrow> ''No Contact Found''),
                      message = message\<rparr>)
              else None))"

fun extract_lines :: "referral list \<Rightarrow> string list \<Rightarrow> referral list" where
  "extract_lines referrals [] = referrals"
| "extract_lines referrals (line # lines) =
     extract_lines
       (case extract_line line of None \<Rightarrow> referrals | Some r \<Rightarrow> referrals @ [r]) lines"

section \<open>What a pattern matches\<close>

text \<open>
  \<open>matches r b m a\<close>: the text \<open>m\<close> is a match of \<open>r\<close> when \<open>b\<close> stands left of it
  (nearest character first) and \<open>a\<close> right of it. Every result of \<open>run\<close> is such a match.
\<close>

inductive matches :: "regex \<Rightarrow> string \<Rightarrow> string \<Rightarrow> string \<Rightarrow> bool" where
  m_Eps: "matches Eps b [] a"
| m_Chr: "matches (Chr c) b [c] a"
| m_Dot: "x \<noteq> newline \<Longrightarrow> matches Dot b [x] a"
| m_Cls: "\<exists>i \<in> set is. item_has i x \<Longrightarrow> matches (Cls is) b [x] a"
| m_Seq: "matches r1 b m1 (m2 @ a) \<Longrightarrow> matches r2 (rev m1 @ b) m2 a \<Longrightarrow>
          matches (Seq r1 r2) b (m1 @ m2) a"
| m_Opt_skip: "matches (Opt r) b [] a"
| m_Opt_take: "matches r b m a \<Longrightarrow> matches (Opt r) b m a"
| m_Star_stop: "matches (Star r) b [] a"
| m_Star_more: "matches r b m1 (m2 @ a) \<Longrightarrow> m1 \<noteq> [] \<Longrightarrow>
          matches (Star r) (rev m1 @ b) m2 a \<Longrightarrow> matches (Star r) b (m1 @ m2) a"
| m_Lazy_stop: "matches (Lazy r) b [] a"
| m_Lazy_more: "matches r b m1 (m2 @ a) \<Longrightarrow> m1 \<noteq> [] \<Longrightarrow>
          matches (Lazy r) (rev m1 @ b) m2 a \<Longrightarrow> matches (Lazy r) b (m1 @ m2) a"
| m_Group: "matches r b m a \<Longrightarrow> matches (Group n r) b m a"
| m_WordB: "at_boundary b a \<Longrightarrow> matches WordB b [] a"

lemma step_iff:
  "s' \<in> set (step P s) \<longleftrightarrow>
     (\<exists>x. fst (snd s) = x # fst (snd s') \<and> fst s' = x # fst s \<and> snd (snd s') = snd (snd s) \<and> P x)"
  by (cases s; cases s') (auto simp: step_def split: list.splits)

lemma run_sound:
  "s' \<in> set (run r s) \<Longrightarrow>
     \<exists>m. fst (snd s) = m @ fst (snd s') \<and> fst s' = rev m @ fst s
        \<and> matches r (fst s) m (fst (snd s'))"
proof (induction r s arbitrary: s' rule: run.induct)
  case (1 s)
  then show ?case by (auto intro: m_Eps)
next
  case (2 c s)
  then show ?case by (auto simp: step_iff intro: m_Chr)
next
  case (3 s)
  then show ?case by (auto simp: step_iff intro: m_Dot)
next
  case (4 "is" s)
  then show ?case by (auto simp: step_iff intro!: m_Cls)
next
  case (5 r1 r2 s)
  then obtain s1 where s1: "s1 \<in> set (run r1 s)" "s' \<in> set (run r2 s1)"
    by auto
  from "5.IH"(1) [OF s1(1)] obtain m1 where m1: "fst (snd s) = m1 @ fst (snd s1)"
    "fst s1 = rev m1 @ fst s" "matches r1 (fst s) m1 (fst (snd s1))"
    by blast
  from "5.IH"(2) [OF s1(1) s1(2)] obtain m2 where m2: "fst (snd s1) = m2 @ fst (snd s')"
    "fst s' = rev m2 @ fst s1" "matches r2 (fst s1) m2 (fst (snd s'))"
    by blast
  from m1 m2 have "matches (Seq r1 r2) (fst s) (m1 @ m2) (fst (snd s'))"
    by (auto intro!: m_Seq)
  with m1 m2 show ?case
    by (intro exI [of _ "m1 @ m2"]) simp
next
  case (6 r s)
  show ?case
  proof (cases "s' = s")
    case True
    then show ?thesis by (auto intro: m_Opt_skip)
  next
    case False
    with "6.prems" have "s' \<in> set (run r s)"
      by simp
    from "6.IH" [OF this] show ?thesis
      by (blast intro: m_Opt_take)
  qed
next
  case (7 r s)
  show ?case
  proof (cases "s' = s")
    case True
    then show ?thesis by (auto intro: m_Star_stop)
  next
    case False
    with "7.prems" run.simps(7) [of r s] obtain s1 where s1: "s1 \<in> set (run r s)"
      "remaining s1 < remaining s" "s' \<in> set (run (Star r) s1)"
      by (auto split: if_splits)
    from "7.IH"(1) [OF s1(1)] obtain m1 where m1: "fst (snd s) = m1 @ fst (snd s1)"
      "fst s1 = rev m1 @ fst s" "matches r (fst s) m1 (fst (snd s1))"
      by blast
    from "7.IH"(2) [OF s1(1) s1(2) s1(3)] obtain m2 where m2: "fst (snd s1) = m2 @ fst (snd s')"
      "fst s' = rev m2 @ fst s1" "matches (Star r) (fst s1) m2 (fst (snd s'))"
      by blast
    from s1(2) m1(1) have "m1 \<noteq> []"
      by (auto simp: remaining_def)
    with m1 m2 have "matches (Star r) (fst s) (m1 @ m2) (fst (snd s'))"
      by (auto intro!: m_Star_more)
    with m1 m2 show ?thesis
      by (intro exI [of _ "m1 @ m2"]) simp
  qed
next
  case (8 r s)
  show ?case
  proof (cases "s' = s")
    case True
    then show ?thesis by (auto intro: m_Lazy_stop)
  next
    case False
    with "8.prems" run.simps(8) [of r s] obtain s1 where s1: "s1 \<in> set (run r s)"
      "remaining s1 < remaining s" "s' \<in> set (run (Lazy r) s1)"
      by (auto split: if_splits)
    from "8.IH"(1) [OF s1(1)] obtain m1 where m1: "fst (snd s) = m1 @ fst (snd s1)"
      "fst s1 = rev m1 @ fst s" "matches r (fst s) m1 (fst (snd s1))"
      by blast
    from "8.IH"(2) [OF s1(1) s1(2) s1(3)] obtain m2 where m2: "fst (snd s1) = m2 @ fst (snd s')"
      "fst s' = rev m2 @ fst s1" "matches (Lazy r) (fst s1) m2 (fst (snd s'))"
      by blast
    from s1(2) m1(1) have "m1 \<noteq> []"
      by (auto simp: remaining_def)
    with m1 m2 have "matches (Lazy r) (fst s) (m1 @ m2) (fst (snd s'))"
      by (auto intro!: m_Lazy_more)
    with m1 m2 show ?thesis
      by (intro exI [of _ "m1 @ m2"]) simp
  qed
next
  case (9 n r s)
  then obtain s0 where s0: "s0 \<in> set (run r s)" "fst s' = fst s0" "fst (snd s') = fst (snd s0)"
    by (auto split: prod.splits)
  from "9.IH" [OF s0(1)] s0(2,3) show ?case
    by (auto intro!: m_Group)
next
  case (10 s)
  then show ?case by (auto intro!: m_WordB split: if_splits)
qed

lemma run_complete:
  "matches r b m a \<Longrightarrow> \<exists>g'. (rev m @ b, a, g') \<in> set (run r (b, m @ a, g))"
proof (induction arbitrary: g rule: matches.induct)
  case (m_Seq r1 b m1 m2 a r2)
  from m_Seq.IH(1) [of g] obtain g1 where
    g1: "(rev m1 @ b, m2 @ a, g1) \<in> set (run r1 (b, m1 @ m2 @ a, g))"
    by blast
  from m_Seq.IH(2) [of g1] obtain g2 where
    g2: "(rev m2 @ rev m1 @ b, a, g2) \<in> set (run r2 (rev m1 @ b, m2 @ a, g1))"
    by blast
  from g1 g2 show ?case
    by (auto intro!: exI [of _ g2] bexI [of _ "(rev m1 @ b, m2 @ a, g1)"])
next
  case (m_Star_more r b m1 m2 a)
  from m_Star_more.IH(1) [of g] obtain g1 where
    g1: "(rev m1 @ b, m2 @ a, g1) \<in> set (run r (b, m1 @ m2 @ a, g))"
    by blast
  from m_Star_more.IH(2) [of g1] obtain g2 where
    g2: "(rev m2 @ rev m1 @ b, a, g2) \<in> set (run (Star r) (rev m1 @ b, m2 @ a, g1))"
    by blast
  from \<open>m1 \<noteq> []\<close> have "remaining (rev m1 @ b, m2 @ a, g1) < remaining (b, m1 @ m2 @ a, g)"
    by (simp add: remaining_def)
  with g1 g2 show ?case
    by (subst run.simps(7)) (auto intro!: exI [of _ g2] bexI [of _ "(rev m1 @ b, m2 @ a, g1)"])
next
  case (m_Lazy_more r b m1 m2 a)
  from m_Lazy_more.IH(1) [of g] obtain g1 where
    g1: "(rev m1 @ b, m2 @ a, g1) \<in> set (run r (b, m1 @ m2 @ a, g))"
    by blast
  from m_Lazy_more.IH(2) [of g1] obtain g2 where
    g2: "(rev m2 @ rev m1 @ b, a, g2) \<in> set (run (Lazy r) (rev m1 @ b, m2 @ a, g1))"
    by blast
  from \<open>m1 \<noteq> []\<close> have "remaining (rev m1 @ b, m2 @ a, g1) < remaining (b, m1 @ m2 @ a, g)"
    by (simp add: remaining_def)
  with g1 g2 show ?case
    by (subst run.simps(8)) (auto intro!: exI [of _ g2] bexI [of _ "(rev m1 @ b, m2 @ a, g1)"])
next
  case (m_Group r b m a n)
  from m_Group.IH [of g] obtain g1 where "(rev m @ b, a, g1) \<in> set (run r (b, m @ a, g))"
    by blast
  then show ?case
    by (force simp: image_iff)
next
  case (m_Star_stop r b a)
  show ?case by (subst run.simps(7)) (simp add: exI [of _ g])
next
  case (m_Lazy_stop r b a)
  show ?case by (subst run.simps(8)) (simp add: exI [of _ g])
next
  case (m_Opt_take r b m a)
  from m_Opt_take.IH [of g] show ?case by auto
qed (auto simp: step_iff)

lemma scan_first:
  "scan False r b a = Some m \<Longrightarrow>
     \<exists>k ms. k \<le> length a
       \<and> (\<forall>j<k. run (Group 0 r) (rev (take j a) @ b, drop j a, []) = [])
       \<and> run (Group 0 r) (rev (take k a) @ b, drop k a, []) = m # ms"
proof (induction a arbitrary: b)
  case Nil
  then show ?case
    by (auto simp: attempt_def split: list.splits)
next
  case (Cons x xs)
  show ?case
  proof (cases "run (Group 0 r) (b, x # xs, [])")
    case Nil
    with Cons.prems have "scan False r (x # b) xs = Some m"
      by (simp add: attempt_def)
    from Cons.IH [OF this] obtain k ms where k: "k \<le> length xs"
      "\<forall>j<k. run (Group 0 r) (rev (take j xs) @ x # b, drop j xs, []) = []"
      "run (Group 0 r) (rev (take k xs) @ x # b, drop k xs, []) = m # ms"
      by blast
    have "\<forall>j<Suc k. run (Group 0 r) (rev (take j (x # xs)) @ b, drop j (x # xs), []) = []"
    proof (intro allI impI)
      fix j assume "j < Suc k"
      then show "run (Group 0 r) (rev (take j (x # xs)) @ b, drop j (x # xs), []) = []"
        using Nil k(2) by (cases j) simp_all
    qed
    with k(1,3) show ?thesis
      by (intro exI [of _ "Suc k"] exI [of _ ms]) simp
  next
    case (Cons m' ms)
    with Cons.prems have "m' = m"
      by (simp add: attempt_def)
    with Cons show ?thesis
      by (intro exI [of _ 0] exI [of _ ms]) simp
  qed
qed

lemma scan_none:
  "scan False r b a = None \<Longrightarrow> k \<le> length a \<Longrightarrow>
     run (Group 0 r) (rev (take k a) @ b, drop k a, []) = []"
proof (induction a arbitrary: b k)
  case Nil
  then show ?case
    by (auto simp: attempt_def split: list.splits)
next
  case (Cons x xs)
  from Cons.prems(1) have n: "run (Group 0 r) (b, x # xs, []) = []"
    and s: "scan False r (x # b) xs = None"
    by (auto simp: attempt_def split: list.splits)
  show ?case
  proof (cases k)
    case 0
    with n show ?thesis by simp
  next
    case (Suc j)
    with Cons.prems(2) have "j \<le> length xs" by simp
    from Cons.IH [OF s this] Suc show ?thesis by simp
  qed
qed

text \<open>
  \<open>occurs r s pre t rest\<close>: the text \<open>s\<close> is \<open>pre\<close>, then a match \<open>t\<close> of \<open>r\<close>, then
  \<open>rest\<close>. A search reports an occurrence that starts leftmost.
\<close>

definition occurs :: "regex \<Rightarrow> string \<Rightarrow> string \<Rightarrow> string \<Rightarrow> string \<Rightarrow> bool" where
  "occurs r s pre t rest \<longleftrightarrow> s = pre @ t @ rest \<and> matches r (rev pre) t rest"

lemma occurs_run:
  assumes "occurs r s pre t rest"
  shows "run (Group 0 r) (rev (take (length pre) s) @ [], drop (length pre) s, []) \<noteq> []"
proof -
  from assms have s: "s = pre @ t @ rest" and m: "matches (Group 0 r) (rev pre) t rest"
    by (auto simp: occurs_def intro: m_Group)
  from run_complete [OF m, of "[]"] s show ?thesis
    by auto
qed

lemma search_none:
  "re_search r s = None \<Longrightarrow> \<not> occurs r s pre t rest"
proof
  assume n: "re_search r s = None" and o: "occurs r s pre t rest"
  then have "length pre \<le> length s"
    by (simp add: occurs_def)
  from scan_none [OF n [unfolded re_search_def] this] occurs_run [OF o] show False
    by simp
qed

lemma search_some:
  assumes "re_search r s = Some m"
  shows "\<exists>pre. occurs r s pre (match_group m 0) (fst (snd m))
           \<and> (\<forall>pre' t rest. occurs r s pre' t rest \<longrightarrow> length pre \<le> length pre')
           \<and> (\<exists>ms. run (Group 0 r) (rev pre, match_group m 0 @ fst (snd m), []) = m # ms)"
proof -
  from scan_first [OF assms [unfolded re_search_def]] obtain k ms where k: "k \<le> length s"
    "\<forall>j<k. run (Group 0 r) (rev (take j s) @ [], drop j s, []) = []"
    "run (Group 0 r) (rev (take k s) @ [], drop k s, []) = m # ms"
    by blast
  from k(3) have mem: "m \<in> set (run (Group 0 r) (rev (take k s), drop k s, []))"
    by simp
  from run_sound [OF mem] obtain t where t: "drop k s = t @ fst (snd m)"
    "fst m = rev t @ rev (take k s)" "matches (Group 0 r) (rev (take k s)) t (fst (snd m))"
    by auto
  from mem have "m \<in> set (attempt False r (rev (take k s)) (drop k s))"
    by (simp add: attempt_def)
  from attempt_group [OF this] t(1) have g: "match_group m 0 = t"
    by simp
  from t(3) have mt: "matches r (rev (take k s)) t (fst (snd m))"
    by (cases rule: matches.cases) auto
  have s: "s = take k s @ t @ fst (snd m)"
    using t(1) by (metis append_take_drop_id)
  have least: "length (take k s) \<le> length pre'" if "occurs r s pre' t' rest'" for pre' t' rest'
  proof (rule ccontr)
    assume "\<not> length (take k s) \<le> length pre'"
    with k(1) have "length pre' < k" by simp
    with k(2) occurs_run [OF that] show False by simp
  qed
  from s mt g least k(3) t(1) show ?thesis
    by (intro exI [of _ "take k s"]) (auto simp: occurs_def)
qed

lemma matches_Eps [simp]: "matches Eps b m a \<longleftrightarrow> m = []"
  by (subst matches.simps) auto

lemma matches_Chr [simp]: "matches (Chr c) b m a \<longleftrightarrow> m = [c]"
  by (subst matches.simps) auto

lemma matches_Dot [simp]: "matches Dot b m a \<longleftrightarrow> (\<exists>x. m = [x] \<and> x \<noteq> newline)"
  by (subst matches.simps) auto

lemma matches_Cls [simp]:
  "matches (Cls is) b m a \<longleftrightarrow> (\<exists>x. m = [x] \<and> (\<exists>i \<in> set is. item_has i x))"
  by (subst matches.simps) auto

lemma matches_Seq:
  "matches (Seq r1 r2) b m a \<longleftrightarrow>
     (\<exists>m1 m2. m = m1 @ m2 \<and> matches r1 b m1 (m2 @ a) \<and> matches r2 (rev m1 @ b) m2 a)"
  by (subst matches.simps) auto

lemma matches_Opt [simp]: "matches (Opt r) b m a \<longleftrightarrow> m = [] \<or> matches r b m a"
  by (subst matches.simps) auto

lemma matches_Group [simp]: "matches (Group n r) b m a \<longleftrightarrow> matches r b m a"
  by (subst matches.simps) auto

lemma matches_WordB [simp]: "matches WordB b m a \<longleftrightarrow> m = [] \<and> at_boundary b a"
  by (subst matches.simps) auto

lemma matches_Seq_Eps [simp]: "matches (Seq Eps r) b m a \<longleftrightarrow> matches r b m a"
  by (simp add: matches_Seq)

lemma matches_Seq_Chr [simp]:
  "matches (Seq (Chr c) r) b m a \<longleftrightarrow> (\<exists>t. m = c # t \<and> matches r (c # b) t a)"
  by (auto simp: matches_Seq)

lemma matches_Seq_Cls [simp]:
  "matches (Seq (Cls is) r) b m a \<longleftrightarrow>
     (\<exists>x t. m = x # t \<and> (\<exists>i \<in> set is. item_has i x) \<and> matches r (x # b) t a)"
proof
  assume "matches (Seq (Cls is) r) b m a"
  then show "\<exists>x t. m = x # t \<and> (\<exists>i \<in> set is. item_has i x) \<and> matches r (x # b) t a"
    by (auto simp: matches_Seq)
next
  assume "\<exists>x t. m = x # t \<and> (\<exists>i \<in> set is. item_has i x) \<and> matches r (x # b) t a"
  then obtain x t where m: "m = [x] @ t" and i: "\<exists>i \<in> set is. item_has i x"
    and r: "matches r (rev [x] @ b) t a"
    by auto
  from i have "matches (Cls is) b [x] (t @ a)"
    by (rule m_Cls)
  from m_Seq [OF this r] m show "matches (Seq (Cls is) r) b m a"
    by simp
qed

lemma matches_Seq_WordB [simp]:
  "matches (Seq WordB r) b m a \<longleftrightarrow> at_boundary b (m @ a) \<and> matches r b m a"
  by (auto simp: matches_Seq)

lemma matches_Seq_Seq [simp]:
  "matches (Seq (Seq r1 r2) r3) b m a \<longleftrightarrow> matches (Seq r1 (Seq r2 r3)) b m a"
proof
  assume "matches (Seq (Seq r1 r2) r3) b m a"
  then obtain m1 m2 m3 where m: "m = m1 @ m2 @ m3" and 1: "matches r1 b m1 ((m2 @ m3) @ a)"
    and 2: "matches r2 (rev m1 @ b) m2 (m3 @ a)" and 3: "matches r3 (rev m2 @ rev m1 @ b) m3 a"
    by (auto simp: matches_Seq)
  from m_Seq [OF 1 m_Seq [OF 2 3]] m show "matches (Seq r1 (Seq r2 r3)) b m a"
    by simp
next
  assume "matches (Seq r1 (Seq r2 r3)) b m a"
  then obtain m1 m2 m3 where m: "m = (m1 @ m2) @ m3" and 1: "matches r1 b m1 (m2 @ m3 @ a)"
    and 2: "matches r2 (rev m1 @ b) m2 (m3 @ a)" and 3: "matches r3 (rev (m1 @ m2) @ b) m3 a"
    by (auto simp: matches_Seq)
  from m_Seq [OF m_Seq [OF 1 2] 3] m show "matches (Seq (Seq r1 r2) r3) b m a"
    by simp
qed

lemma matches_Seq_Opt [simp]:
  "matches (Seq (Opt r1) r2) b m a \<longleftrightarrow> matches r2 b m a \<or> matches (Seq r1 r2) b m a"
proof
  assume "matches (Seq (Opt r1) r2) b m a"
  then show "matches r2 b m a \<or> matches (Seq r1 r2) b m a"
    by (auto simp: matches_Seq)
next
  assume "matches r2 b m a \<or> matches (Seq r1 r2) b m a"
  then show "matches (Seq (Opt r1) r2) b m a"
  proof
    assume "matches r2 b m a"
    then have "matches r2 (rev [] @ b) m a" by simp
    from m_Seq [OF m_Opt_skip this] show ?thesis by simp
  next
    assume "matches (Seq r1 r2) b m a"
    then obtain m1 m2 where "m = m1 @ m2" "matches r1 b m1 (m2 @ a)"
      "matches r2 (rev m1 @ b) m2 a"
      by (auto simp: matches_Seq)
    with m_Seq [OF m_Opt_take] show ?thesis by blast
  qed
qed

lemma star_chars:
  assumes r: "\<And>b m a. matches r b m a \<longleftrightarrow> (\<exists>x. m = [x] \<and> P x)"
  shows "matches (Star r) b t a \<longleftrightarrow> (\<forall>x \<in> set t. P x)"
proof
  assume "matches (Star r) b t a"
  then show "\<forall>x \<in> set t. P x"
    by (induction "Star r" b t a rule: matches.induct) (auto simp: r)
next
  assume "\<forall>x \<in> set t. P x"
  then show "matches (Star r) b t a"
  proof (induction t arbitrary: b)
    case Nil
    show ?case by (rule m_Star_stop)
  next
    case (Cons x t)
    then have 1: "matches r b [x] (t @ a)" and 2: "matches (Star r) (rev [x] @ b) t a"
      by (auto simp: r)
    from m_Star_more [OF 1 _ 2] show ?case by simp
  qed
qed

lemma lazy_chars:
  assumes r: "\<And>b m a. matches r b m a \<longleftrightarrow> (\<exists>x. m = [x] \<and> P x)"
  shows "matches (Lazy r) b t a \<longleftrightarrow> (\<forall>x \<in> set t. P x)"
proof
  assume "matches (Lazy r) b t a"
  then show "\<forall>x \<in> set t. P x"
    by (induction "Lazy r" b t a rule: matches.induct) (auto simp: r)
next
  assume "\<forall>x \<in> set t. P x"
  then show "matches (Lazy r) b t a"
  proof (induction t arbitrary: b)
    case Nil
    show ?case by (rule m_Lazy_stop)
  next
    case (Cons x t)
    then have 1: "matches r b [x] (t @ a)" and 2: "matches (Lazy r) (rev [x] @ b) t a"
      by (auto simp: r)
    from m_Lazy_more [OF 1 _ 2] show ?case by simp
  qed
qed

lemma matches_Star_Dot [simp]: "matches (Star Dot) b t a \<longleftrightarrow> newline \<notin> set t"
  using star_chars [of Dot "\<lambda>x. x \<noteq> newline" b t a] by auto

lemma matches_Lazy_Dot [simp]: "matches (Lazy Dot) b t a \<longleftrightarrow> newline \<notin> set t"
  using lazy_chars [of Dot "\<lambda>x. x \<noteq> newline" b t a] by auto

lemma matches_lits [simp]: "matches (lits s) b t a \<longleftrightarrow> t = s"
  by (induction s arbitrary: b t) auto

lemma matches_Seq_lits [simp]:
  "matches (Seq (lits s) r) b t a \<longleftrightarrow> (\<exists>u. t = s @ u \<and> matches r (rev s @ b) u a)"
  by (auto simp: matches_Seq)

definition is_apm :: "char \<Rightarrow> bool" where
  "is_apm c \<longleftrightarrow> c = CHR ''A'' \<or> c = CHR ''P'' \<or> c = CHR ''M''"

definition two_of_apm :: "string \<Rightarrow> bool" where
  "two_of_apm mk \<longleftrightarrow> (\<exists>x y. mk = [x, y] \<and> is_apm x \<and> is_apm y)"

definition am_or_pm :: "string \<Rightarrow> bool" where
  "am_or_pm mk \<longleftrightarrow> mk = ''AM'' \<or> mk = ''PM''"

definition timestamp :: "(string \<Rightarrow> bool) \<Rightarrow> string \<Rightarrow> bool" where
  "timestamp marker ts \<longleftrightarrow>
     (\<exists>d1 d2 d3 d4 d5 d6 h m1 m2 mk.
        ts = [d1, d2, CHR ''/'', d3, d4, CHR ''/'', d5, d6, CHR '','', CHR '' ''] @ h
               @ [CHR '':'', m1, m2, CHR '' ''] @ mk
        \<and> list_all is_decimal [d1, d2, d3, d4, d5, d6, m1, m2]
        \<and> list_all is_decimal h \<and> (length h = 1 \<or> length h = 2)
        \<and> marker mk)"

lemma matches_Seq_digit [simp]:
  "matches (Seq digit r) b m a \<longleftrightarrow>
     (\<exists>x t. m = x # t \<and> is_decimal x \<and> matches r (x # b) t a)"
  by (simp add: digit_def)

lemma matches_Seq_apm [simp]:
  "matches (Seq apm r) b m a \<longleftrightarrow> (\<exists>x t. m = x # t \<and> is_apm x \<and> matches r (x # b) t a)"
  by (auto simp: apm_def is_apm_def)

lemma matches_Seq_Opt_digit [simp]:
  "matches (Seq (Opt digit) r) b m a \<longleftrightarrow>
     matches r b m a \<or> (\<exists>x t. m = x # t \<and> is_decimal x \<and> matches r (x # b) t a)"
  by simp

lemma stamp_unfold:
  "matches stamp_pattern b t a \<longleftrightarrow>
     (\<exists>d1 d2 d3 d4 d5 d6 h m1 m2 x y.
        t = CHR ''['' # d1 # d2 # CHR ''/'' # d3 # d4 # CHR ''/'' # d5 # d6 # CHR '','' # CHR '' ''
              # h @ [CHR '':'', m1, m2, CHR '' '', x, y, CHR '']'', CHR '' '']
        \<and> is_decimal d1 \<and> is_decimal d2 \<and> is_decimal d3 \<and> is_decimal d4 \<and> is_decimal d5
        \<and> is_decimal d6 \<and> is_decimal m1 \<and> is_decimal m2 \<and> is_apm x \<and> is_apm y
        \<and> ((\<exists>h1. h = [h1] \<and> is_decimal h1) \<or> (\<exists>h1 h2. h = [h1, h2] \<and> is_decimal h1 \<and> is_decimal h2)))"
  apply (simp add: stamp_pattern_def eval_nat_numeral del: matches_Seq_Opt)
  apply (rule iffI)
   apply (elim exE conjE disjE)
    apply (simp; fail)
   apply (simp; fail)
  apply (elim exE conjE disjE)
   apply (simp; fail)
  apply (simp; fail)
  done

lemma hour_forms:
  "list_all is_decimal h \<and> (length h = 1 \<or> length h = 2) \<longleftrightarrow>
     (\<exists>h1. h = [h1] \<and> is_decimal h1) \<or> (\<exists>h1 h2. h = [h1, h2] \<and> is_decimal h1 \<and> is_decimal h2)"
  by (cases h; cases "tl h"; cases "tl (tl h)") auto

lemma matches_stamp:
  "matches stamp_pattern b t a \<longleftrightarrow> (\<exists>ts. t = ''['' @ ts @ ''] '' \<and> timestamp two_of_apm ts)"
proof
  assume "matches stamp_pattern b t a"
  then obtain d1 d2 d3 d4 d5 d6 h m1 m2 x y where
    t: "t = ''['' @ ([d1, d2, CHR ''/'', d3, d4, CHR ''/'', d5, d6, CHR '','', CHR '' ''] @ h
              @ [CHR '':'', m1, m2, CHR '' ''] @ [x, y]) @ ''] ''"
    and d: "list_all is_decimal [d1, d2, d3, d4, d5, d6, m1, m2]"
    and h: "list_all is_decimal h \<and> (length h = 1 \<or> length h = 2)"
    and mk: "two_of_apm [x, y]"
    unfolding stamp_unfold hour_forms two_of_apm_def by auto
  from d h mk have "timestamp two_of_apm
      ([d1, d2, CHR ''/'', d3, d4, CHR ''/'', d5, d6, CHR '','', CHR '' ''] @ h
              @ [CHR '':'', m1, m2, CHR '' ''] @ [x, y])"
    unfolding timestamp_def by blast
  with t show "\<exists>ts. t = ''['' @ ts @ ''] '' \<and> timestamp two_of_apm ts"
    by blast
next
  assume "\<exists>ts. t = ''['' @ ts @ ''] '' \<and> timestamp two_of_apm ts"
  then obtain d1 d2 d3 d4 d5 d6 h m1 m2 x y where
    t: "t = ''['' @ ([d1, d2, CHR ''/'', d3, d4, CHR ''/'', d5, d6, CHR '','', CHR '' ''] @ h
              @ [CHR '':'', m1, m2, CHR '' ''] @ [x, y]) @ ''] ''"
    and d: "list_all is_decimal [d1, d2, d3, d4, d5, d6, m1, m2]"
    and h: "list_all is_decimal h \<and> (length h = 1 \<or> length h = 2)"
    and mk: "is_apm x" "is_apm y"
    unfolding timestamp_def two_of_apm_def by auto
  from h have "(\<exists>h1. h = [h1] \<and> is_decimal h1)
      \<or> (\<exists>h1 h2. h = [h1, h2] \<and> is_decimal h1 \<and> is_decimal h2)"
    by (simp only: hour_forms)
  then have forms: "(\<exists>h1. h = [h1] \<and> is_decimal h1)
      \<or> (\<exists>h1 h2. h = [h1, h2] \<and> is_decimal h1 \<and> is_decimal h2)" .
  from t have t': "t = CHR ''['' # d1 # d2 # CHR ''/'' # d3 # d4 # CHR ''/'' # d5 # d6 # CHR '',''
      # CHR '' '' # h @ [CHR '':'', m1, m2, CHR '' '', x, y, CHR '']'', CHR '' '']"
    by simp
  from d have d': "is_decimal d1" "is_decimal d2" "is_decimal d3" "is_decimal d4"
    "is_decimal d5" "is_decimal d6" "is_decimal m1" "is_decimal m2"
    by simp_all
  from t' d' mk forms show "matches stamp_pattern b t a"
    unfolding stamp_unfold by blast
qed

definition transcript_line :: "(string \<Rightarrow> bool) \<Rightarrow> string \<Rightarrow> bool" where
  "transcript_line marker line \<longleftrightarrow>
     (\<exists>pre ts sender msg.
        line = pre @ ''['' @ ts @ ''] '' @ sender @ '': '' @ msg
        \<and> timestamp marker ts \<and> newline \<notin> set sender)"

lemma matches_line:
  "matches line_pattern b t a \<longleftrightarrow>
     (\<exists>ts sender msg. t = ''['' @ ts @ ''] '' @ sender @ '': '' @ msg
        \<and> timestamp two_of_apm ts \<and> newline \<notin> set sender \<and> newline \<notin> set msg)"
proof
  assume "matches line_pattern b t a"
  then obtain t1 sender msg where "t = t1 @ sender @ '': '' @ msg" "matches stamp_pattern b t1 ((sender @ '': '' @ msg) @ a)"
    "newline \<notin> set sender" "newline \<notin> set msg"
    unfolding line_pattern_def by (auto simp: matches_Seq)
  then show "\<exists>ts sender msg. t = ''['' @ ts @ ''] '' @ sender @ '': '' @ msg
        \<and> timestamp two_of_apm ts \<and> newline \<notin> set sender \<and> newline \<notin> set msg"
    unfolding matches_stamp by (metis append.assoc)
next
  assume "\<exists>ts sender msg. t = ''['' @ ts @ ''] '' @ sender @ '': '' @ msg
        \<and> timestamp two_of_apm ts \<and> newline \<notin> set sender \<and> newline \<notin> set msg"
  then obtain ts sender msg where t: "t = (''['' @ ts @ ''] '') @ sender @ '': '' @ msg"
    and ts: "timestamp two_of_apm ts" and n: "newline \<notin> set sender" "newline \<notin> set msg"
    by auto
  from ts have 1: "matches stamp_pattern b (''['' @ ts @ ''] '') ((sender @ '': '' @ msg) @ a)"
    unfolding matches_stamp by blast
  from n(1) have 2: "matches (Group 1 (Lazy Dot)) (rev (''['' @ ts @ ''] '') @ b) sender
      (('': '' @ msg) @ a)"
    by simp
  from n(2) have 3: "matches (Seq (lits '': '') (Group 2 (Star Dot)))
      (rev sender @ rev (''['' @ ts @ ''] '') @ b) ('': '' @ msg) a"
    by simp
  from m_Seq [OF 1 m_Seq [OF 2 3]] t show "matches line_pattern b t a"
    by (simp add: line_pattern_def)
qed

lemma contains_iff: "contains needle s \<longleftrightarrow> (\<exists>u v. s = u @ needle @ v)"
proof (induction s)
  case Nil
  then show ?case by auto
next
  case (Cons c cs)
  show ?case
  proof
    assume "contains needle (c # cs)"
    then consider "take (length needle) (c # cs) = needle" | "contains needle cs"
      by auto
    then show "\<exists>u v. c # cs = u @ needle @ v"
    proof cases
      case 1
      then have "c # cs = [] @ needle @ drop (length needle) (c # cs)"
        by (metis append_Nil append_take_drop_id)
      then show ?thesis by blast
    next
      case 2
      with Cons.IH obtain u v where "cs = u @ needle @ v" by blast
      then have "c # cs = (c # u) @ needle @ v" by simp
      then show ?thesis by blast
    qed
  next
    assume "\<exists>u v. c # cs = u @ needle @ v"
    then obtain u v where uv: "c # cs = u @ needle @ v" by blast
    show "contains needle (c # cs)"
    proof (cases u)
      case Nil
      with uv have "take (length needle) (c # cs) = needle" by simp
      then show ?thesis by simp
    next
      case (Cons x u')
      with uv have "cs = u' @ needle @ v" by simp
      with Cons.IH have "contains needle cs" by blast
      then show ?thesis by simp
    qed
  qed
qed

lemma line_search_iff:
  "re_search line_pattern line \<noteq> None \<longleftrightarrow> transcript_line two_of_apm line"
proof
  assume "re_search line_pattern line \<noteq> None"
  then obtain m where "re_search line_pattern line = Some m" by blast
  from search_some [OF this] obtain pre t rest where "occurs line_pattern line pre t rest"
    by blast
  then obtain ts sender msg where "line = pre @ (''['' @ ts @ ''] '' @ sender @ '': '' @ msg) @ rest"
    "timestamp two_of_apm ts" "newline \<notin> set sender"
    unfolding occurs_def matches_line by blast
  then have "line = pre @ ''['' @ ts @ ''] '' @ sender @ '': '' @ (msg @ rest)
      \<and> timestamp two_of_apm ts \<and> newline \<notin> set sender"
    by simp
  then show "transcript_line two_of_apm line"
    unfolding transcript_line_def by blast
next
  assume "transcript_line two_of_apm line"
  then obtain pre ts sender msg where l: "line = pre @ ''['' @ ts @ ''] '' @ sender @ '': '' @ msg"
    and ts: "timestamp two_of_apm ts" and n: "newline \<notin> set sender"
    unfolding transcript_line_def by blast
  let ?m = "takeWhile (\<lambda>x. x \<noteq> newline) msg"
  let ?r = "dropWhile (\<lambda>x. x \<noteq> newline) msg"
  have "newline \<notin> set ?m"
    by (auto dest: set_takeWhileD)
  with ts n have "matches line_pattern (rev pre) (''['' @ ts @ ''] '' @ sender @ '': '' @ ?m) ?r"
    unfolding matches_line by blast
  moreover from l have "line = pre @ (''['' @ ts @ ''] '' @ sender @ '': '' @ ?m) @ ?r"
    by simp
  ultimately have "occurs line_pattern line pre (''['' @ ts @ ''] '' @ sender @ '': '' @ ?m) ?r"
    unfolding occurs_def by blast
  with search_none show "re_search line_pattern line \<noteq> None"
    by blast
qed

fun group_free :: "regex \<Rightarrow> bool" where
  "group_free (Seq r1 r2) \<longleftrightarrow> group_free r1 \<and> group_free r2"
| "group_free (Opt r) \<longleftrightarrow> group_free r"
| "group_free (Star r) \<longleftrightarrow> group_free r"
| "group_free (Lazy r) \<longleftrightarrow> group_free r"
| "group_free (Group n r) \<longleftrightarrow> False"
| "group_free r \<longleftrightarrow> True"

lemma group_free_run:
  "group_free r \<Longrightarrow> s' \<in> set (run r s) \<Longrightarrow> snd (snd s') = snd (snd s)"
proof (induction r s arbitrary: s' rule: run.induct)
  case (5 r1 r2 s)
  then obtain s1 where s1: "s1 \<in> set (run r1 s)" "s' \<in> set (run r2 s1)"
    by auto
  from "5.IH"(1) [OF _ s1(1)] "5.IH"(2) [OF s1(1) _ s1(2)] "5.prems"(1) show ?case
    by simp
next
  case (7 r s)
  show ?case
  proof (cases "s' = s")
    case True
    then show ?thesis by simp
  next
    case False
    with "7.prems" run.simps(7) [of r s] obtain s1 where s1: "s1 \<in> set (run r s)"
      "remaining s1 < remaining s" "s' \<in> set (run (Star r) s1)"
      by (auto split: if_splits)
    from "7.IH"(1) [OF _ s1(1)] "7.IH"(2) [OF s1(1) s1(2) _ s1(3)] "7.prems"(1) show ?thesis
      by simp
  qed
next
  case (8 r s)
  show ?case
  proof (cases "s' = s")
    case True
    then show ?thesis by simp
  next
    case False
    with "8.prems" run.simps(8) [of r s] obtain s1 where s1: "s1 \<in> set (run r s)"
      "remaining s1 < remaining s" "s' \<in> set (run (Lazy r) s1)"
      by (auto split: if_splits)
    from "8.IH"(1) [OF _ s1(1)] "8.IH"(2) [OF s1(1) s1(2) _ s1(3)] "8.prems"(1) show ?thesis
      by simp
  qed
qed (auto simp: step_iff split: if_splits)

lemma group_free_rep [simp]: "group_free (rep n r) \<longleftrightarrow> n = 0 \<or> group_free r"
  by (induction n) auto

lemma group_free_lits [simp]: "group_free (lits s)"
  by (induction s) auto

lemma group_free_stamp: "group_free stamp_pattern"
  by (simp add: stamp_pattern_def digit_def apm_def)

lemma seq_first:
  assumes "run (Seq r1 r2) s = y # ys"
  shows "\<exists>xs1 x xs2 zs. run r1 s = xs1 @ x # xs2 \<and> (\<forall>x' \<in> set xs1. run r2 x' = [])
           \<and> run r2 x = y # zs"
proof -
  have "concat (map f xs) = y # ys \<Longrightarrow>
      \<exists>xs1 x xs2 zs. xs = xs1 @ x # xs2 \<and> (\<forall>x' \<in> set xs1. f x' = []) \<and> f x = y # zs"
    for f :: "mstate \<Rightarrow> mstate list" and xs
  proof (induction xs)
    case Nil
    then show ?case by simp
  next
    case (Cons x xs)
    show ?case
    proof (cases "f x")
      case Nil
      with Cons.prems have "concat (map f xs) = y # ys" by simp
      from Cons.IH [OF this] obtain xs1 x' xs2 zs where
        "xs = xs1 @ x' # xs2" "\<forall>x' \<in> set xs1. f x' = []" "f x' = y # zs"
        by blast
      with Nil show ?thesis
        by (intro exI [of _ "x # xs1"] exI [of _ x'] exI [of _ xs2] exI [of _ zs]) simp
    next
      case (Cons z zs)
      with Cons.prems have "f x = y # zs" by simp
      then show ?thesis
        by (intro exI [of _ "[]"] exI [of _ x] exI [of _ xs] exI [of _ zs]) simp
    qed
  qed
  from this [of "run r2" "run r1 s"] assms show ?thesis
    by simp
qed

lemma run_Dot_Cons:
  "run Dot (b, x # xs, g) = (if x \<noteq> newline then [(x # b, xs, g)] else [])"
  by (simp add: step_def)

lemma run_Dot_Nil: "run Dot (b, [], g) = []"
  by (simp add: step_def)

lemma lazy_dot_Nil: "run (Lazy Dot) (b, [], g) = [(b, [], g)]"
  by (subst run.simps(8)) (simp add: step_def)

lemma lazy_dot_Cons:
  "run (Lazy Dot) (b, x # xs, g) =
     (b, x # xs, g) # (if x \<noteq> newline then run (Lazy Dot) (x # b, xs, g) else [])"
  by (subst run.simps(8)) (simp add: step_def remaining_def)

lemma star_dot_Nil: "run (Star Dot) (b, [], g) = [(b, [], g)]"
  by (subst run.simps(7)) (simp add: step_def)

lemma star_dot_Cons:
  "run (Star Dot) (b, x # xs, g) =
     (if x \<noteq> newline then run (Star Dot) (x # b, xs, g) else []) @ [(b, x # xs, g)]"
  by (subst run.simps(7)) (simp add: step_def remaining_def)

lemma star_dot_first:
  "\<exists>zs. run (Star Dot) (b, a, g) =
     (rev (takeWhile (\<lambda>x. x \<noteq> newline) a) @ b, dropWhile (\<lambda>x. x \<noteq> newline) a, g) # zs"
proof (induction a arbitrary: b)
  case Nil
  show ?case by (simp add: star_dot_Nil)
next
  case (Cons x xs)
  from Cons [of "x # b"] show ?case
    by (auto simp: star_dot_Cons)
qed

lemma lazy_dot_run:
  "run (Lazy Dot) (b, a, g) =
     map (\<lambda>k. (rev (take k a) @ b, drop k a, g))
       [0..<Suc (length (takeWhile (\<lambda>x. x \<noteq> newline) a))]"
proof (induction a arbitrary: b)
  case Nil
  show ?case by (simp add: lazy_dot_Nil)
next
  case (Cons x xs)
  show ?case
  proof (cases "x = newline")
    case True
    then show ?thesis by (simp add: lazy_dot_Cons)
  next
    case False
    let ?n = "length (takeWhile (\<lambda>x. x \<noteq> newline) xs)"
    have "[0..<Suc (Suc ?n)] = 0 # map Suc [0..<Suc ?n]"
      by (metis map_Suc_upt upt_conv_Cons zero_less_Suc)
    with False Cons [of "x # b"] show ?thesis
      by (simp add: lazy_dot_Cons comp_def del: upt_Suc)
  qed
qed

lemma run_lits:
  "run (lits s) (b, a, g) =
     (if length s \<le> length a \<and> take (length s) a = s
      then [(rev s @ b, drop (length s) a, g)] else [])"
proof (induction s arbitrary: b a)
  case Nil
  show ?case by simp
next
  case (Cons c s)
  show ?case
  proof (cases a)
    case Nil
    then show ?thesis by (simp add: step_def)
  next
    case (Cons x xs)
    with Cons.IH [of "c # b" xs] show ?thesis
      by (auto simp: step_def)
  qed
qed

lemma run_group_lazy_dot:
  "run (Group n (Lazy Dot)) (b, a, g) =
     map (\<lambda>k. (rev (take k a) @ b, drop k a, (n, take k a) # g))
       [0..<Suc (length (takeWhile (\<lambda>x. x \<noteq> newline) a))]"
  by (simp add: lazy_dot_run comp_def del: upt_Suc)

lemma run_group_star_dot:
  "\<exists>zs. run (Group n (Star Dot)) (b, a, g) =
     (rev (takeWhile (\<lambda>x. x \<noteq> newline) a) @ b, dropWhile (\<lambda>x. x \<noteq> newline) a,
      (n, takeWhile (\<lambda>x. x \<noteq> newline) a) # g) # zs"
proof -
  from star_dot_first [of b a g] obtain zs where
    "run (Star Dot) (b, a, g) =
     (rev (takeWhile (\<lambda>x. x \<noteq> newline) a) @ b, dropWhile (\<lambda>x. x \<noteq> newline) a, g) # zs"
    by blast
  then show ?thesis by simp
qed

lemma map_upt_split:
  assumes "map f [0..<n] = xs1 @ x # xs2"
  shows "length xs1 < n \<and> x = f (length xs1) \<and> xs1 = map f [0..<length xs1]"
proof -
  from assms have "length (map f [0..<n]) = length (xs1 @ x # xs2)"
    by (rule arg_cong)
  then have len: "length xs1 < n"
    by simp
  have "(xs1 @ x # xs2) ! length xs1 = x"
    by simp
  with assms have "map f [0..<n] ! length xs1 = x"
    by (rule ssubst)
  with len have x: "x = f (length xs1)"
    by simp
  have "take (length xs1) (xs1 @ x # xs2) = xs1"
    by simp
  with assms have "take (length xs1) (map f [0..<n]) = xs1"
    by (rule ssubst)
  with len have "xs1 = map f [0..<length xs1]"
    by (simp add: take_map)
  with len x show ?thesis by blast
qed

lemma run_colon_message:
  "run (Seq (lits '': '') (Group 2 (Star Dot))) (b, a, g) =
     (if take 2 a = '': '' then run (Group 2 (Star Dot)) (rev '': '' @ b, drop 2 a, g) else [])"
proof -
  have "take 2 a = '': '' \<Longrightarrow> 2 \<le> length a"
    by (cases a; cases "tl a") auto
  then show ?thesis
    by (subst run.simps(5))
      (auto simp: run_lits numeral_2_eq_2 simp del: run.simps lits.simps)
qed

lemma tail_first:
  assumes "run (Seq (Group 1 (Lazy Dot)) (Seq (lits '': '') (Group 2 (Star Dot)))) (b, a, g) = y # ys"
  shows "\<exists>k. k \<le> length (takeWhile (\<lambda>x. x \<noteq> newline) a) \<and> take 2 (drop k a) = '': ''
     \<and> (\<forall>j<k. take 2 (drop j a) \<noteq> '': '')
     \<and> y = (rev (takeWhile (\<lambda>x. x \<noteq> newline) (drop 2 (drop k a))) @ rev '': '' @ rev (take k a) @ b,
            dropWhile (\<lambda>x. x \<noteq> newline) (drop 2 (drop k a)),
            (2, takeWhile (\<lambda>x. x \<noteq> newline) (drop 2 (drop k a))) # (1, take k a) # g)"
proof -
  let ?R = "Seq (lits '': '') (Group 2 (Star Dot))"
  let ?F = "\<lambda>k. (rev (take k a) @ b, drop k a, (1, take k a) # g)"
  let ?n = "Suc (length (takeWhile (\<lambda>x. x \<noteq> newline) a))"
  from seq_first [OF assms] obtain xs1 x xs2 zs where
    split: "run (Group 1 (Lazy Dot)) (b, a, g) = xs1 @ x # xs2"
    and none: "\<forall>x' \<in> set xs1. run ?R x' = []" and some: "run ?R x = y # zs"
    by blast
  from split have "map ?F [0..<?n] = xs1 @ x # xs2"
    by (simp only: run_group_lazy_dot)
  from map_upt_split [OF this] have k: "length xs1 < ?n" and x: "x = ?F (length xs1)"
    and before: "xs1 = map ?F [0..<length xs1]"
    by blast+
  let ?k = "length xs1"
  from some x have c: "take 2 (drop ?k a) = '': ''"
    by (auto simp only: run_colon_message split: if_splits)
  let ?s3 = "(rev '': '' @ rev (take ?k a) @ b, drop 2 (drop ?k a), (1, take ?k a) # g)"
  from c have "run ?R (?F ?k) = run (Group 2 (Star Dot)) ?s3"
    by (simp only: run_colon_message if_True simp_thms)
  with some x have "run (Group 2 (Star Dot)) ?s3 = y # zs"
    by (simp only:)
  moreover from run_group_star_dot [of 2 "rev '': '' @ rev (take ?k a) @ b" "drop 2 (drop ?k a)"
      "(1, take ?k a) # g"]
  obtain zs' where "run (Group 2 (Star Dot)) ?s3 =
      (rev (takeWhile (\<lambda>x. x \<noteq> newline) (drop 2 (drop ?k a))) @ rev '': '' @ rev (take ?k a) @ b,
            dropWhile (\<lambda>x. x \<noteq> newline) (drop 2 (drop ?k a)),
            (2, takeWhile (\<lambda>x. x \<noteq> newline) (drop 2 (drop ?k a))) # (1, take ?k a) # g) # zs'"
    by blast
  ultimately have y: "y = (rev (takeWhile (\<lambda>x. x \<noteq> newline) (drop 2 (drop ?k a))) @ rev '': '' @ rev (take ?k a) @ b,
            dropWhile (\<lambda>x. x \<noteq> newline) (drop 2 (drop ?k a)),
            (2, takeWhile (\<lambda>x. x \<noteq> newline) (drop 2 (drop ?k a))) # (1, take ?k a) # g)"
    by (simp only: list.inject)
  have least: "take 2 (drop j a) \<noteq> '': ''" if "j < ?k" for j
  proof
    assume j: "take 2 (drop j a) = '': ''"
    from that have "j \<in> set [0..<?k]" by simp
    then have "?F j \<in> ?F ` set [0..<?k]" by (rule imageI)
    then have "?F j \<in> set (map ?F [0..<?k])" by (simp only: set_map)
    with before have "?F j \<in> set xs1" by metis
    with none have "run ?R (?F j) = []" by blast
    moreover from j have "run ?R (?F j) = run (Group 2 (Star Dot))
        (rev '': '' @ rev (take j a) @ b, drop 2 (drop j a), (1, take j a) # g)"
      by (simp only: run_colon_message if_True simp_thms)
    moreover from run_group_star_dot [of 2 "rev '': '' @ rev (take j a) @ b" "drop 2 (drop j a)"
        "(1, take j a) # g"]
    have "run (Group 2 (Star Dot))
        (rev '': '' @ rev (take j a) @ b, drop 2 (drop j a), (1, take j a) # g) \<noteq> []"
      by (metis list.distinct(1))
    ultimately show False
      by (simp only:)
  qed
  from k c y least show ?thesis
    by (intro exI [of _ ?k]) auto
qed

lemma group0_first:
  assumes "run (Group 0 r) s = m # ms"
  shows "\<exists>m0 ms0. run r s = m0 # ms0 \<and> fst m = fst m0 \<and> fst (snd m) = fst (snd m0)
           \<and> (\<forall>n > 0. match_group m n = match_group m0 n)"
proof -
  from assms obtain m0 ms0 where r: "run r s = m0 # ms0"
    by (cases "run r s") auto
  with assms have "m = (fst m0, fst (snd m0),
      (0, rev (take (length (fst m0) - length (fst s)) (fst m0))) # snd (snd m0))"
    by (cases m0) simp
  then have "fst m = fst m0 \<and> fst (snd m) = fst (snd m0)
      \<and> (\<forall>n > 0. match_group m n = match_group m0 n)"
    by (simp add: match_group_def)
  with r show ?thesis by blast
qed

lemma line_first:
  assumes "run line_pattern (b, a, []) = m0 # ms0"
  shows "\<exists>ts sender msg rest. a = ''['' @ ts @ ''] '' @ sender @ '': '' @ msg @ rest
           \<and> timestamp two_of_apm ts
           \<and> newline \<notin> set sender
           \<and> (\<forall>j < length sender. take 2 (drop j (sender @ '': '')) \<noteq> '': '')
           \<and> msg = takeWhile (\<lambda>x. x \<noteq> newline) (msg @ rest)
           \<and> fst (snd m0) = rest
           \<and> snd (snd m0) = [(2, msg), (1, sender)]"
proof -
  let ?P = "\<lambda>x. x \<noteq> newline"
  from seq_first [OF assms [unfolded line_pattern_def]] obtain xs1 s1 xs2 zs where
    st: "run stamp_pattern (b, a, []) = xs1 @ s1 # xs2"
    and tl: "run (Seq (Group 1 (Lazy Dot)) (Seq (lits '': '') (Group 2 (Star Dot)))) s1 = m0 # zs"
    by blast
  from st have mem: "s1 \<in> set (run stamp_pattern (b, a, []))"
    by simp
  from run_sound [OF mem] obtain t1 where t1: "a = t1 @ fst (snd s1)"
    "matches stamp_pattern b t1 (fst (snd s1))"
    by auto
  then obtain ts where ts: "t1 = ''['' @ ts @ ''] ''" "timestamp two_of_apm ts"
    unfolding matches_stamp by blast
  from group_free_run [OF group_free_stamp mem] have g1: "snd (snd s1) = []"
    by simp
  obtain b1 a1 where s1: "s1 = (b1, a1, [])"
    using g1 by (cases s1) auto
  from tail_first [OF tl [unfolded s1]] obtain k where
    k: "k \<le> length (takeWhile ?P a1)" and c: "take 2 (drop k a1) = '': ''"
    and least: "\<forall>j<k. take 2 (drop j a1) \<noteq> '': ''"
    and m0: "m0 = (rev (takeWhile ?P (drop 2 (drop k a1))) @ rev '': '' @ rev (take k a1) @ b1,
            dropWhile ?P (drop 2 (drop k a1)),
            [(2, takeWhile ?P (drop 2 (drop k a1))), (1, take k a1)])"
    by blast
  let ?sender = "take k a1"
  let ?msg = "takeWhile ?P (drop 2 (drop k a1))"
  let ?rest = "dropWhile ?P (drop 2 (drop k a1))"
  have "drop k a1 = take 2 (drop k a1) @ drop 2 (drop k a1)"
    by (rule append_take_drop_id [symmetric])
  with c have d: "drop k a1 = '': '' @ ?msg @ ?rest"
    by simp
  have "a1 = ?sender @ drop k a1"
    by simp
  with d have a1: "a1 = ?sender @ '': '' @ ?msg @ ?rest"
    by simp
  from k have klen: "length ?sender = k"
    by (metis length_take min.absorb2 length_takeWhile_le le_trans)
  from k have "?sender = take k (takeWhile ?P a1)"
    by (metis takeWhile_eq_take take_take min.absorb1)
  then have nl: "newline \<notin> set ?sender"
    by (metis in_set_takeD set_takeWhileD)
  have lazy: "take 2 (drop j (?sender @ '': '')) \<noteq> '': ''" if "j < length ?sender" for j
  proof -
    from that klen have jk: "j < k" by simp
    with least have n: "take 2 (drop j a1) \<noteq> '': ''" by blast
    from a1 have "drop j a1 = drop j (?sender @ '': '') @ ?msg @ ?rest"
      using that by (metis append.assoc drop_append less_imp_le_nat diff_is_0_eq drop0)
    moreover from that have "2 \<le> length (drop j (?sender @ '': ''))"
      by simp
    ultimately have "take 2 (drop j a1) = take 2 (drop j (?sender @ '': ''))"
      by simp
    with n show ?thesis by simp
  qed
  have grd: "?msg = takeWhile ?P (?msg @ ?rest)"
    by simp
  from t1(1) ts(1) s1 a1 have a: "a = ''['' @ ts @ ''] '' @ ?sender @ '': '' @ ?msg @ ?rest"
    by simp
  from a ts(2) nl lazy grd m0 show ?thesis
    by (intro exI [of _ ts] exI [of _ ?sender] exI [of _ ?msg] exI [of _ ?rest]) simp
qed

lemma extract_line_Some:
  assumes "extract_line line = Some r"
  shows "\<exists>m. re_search line_pattern line = Some m \<and> sender r = match_group m 1
           \<and> message r = match_group m 2"
proof (cases "re_search line_pattern line")
  case None
  with assms show ?thesis by (simp add: extract_line_def)
next
  case (Some m)
  with assms have "sender r = match_group m 1 \<and> message r = match_group m 2"
    by (auto simp: extract_line_def Let_def split: if_splits)
  with Some show ?thesis by blast
qed

lemma line_match:
  assumes "re_search line_pattern line = Some m"
  shows "\<exists>pre ts rest. line = pre @ ''['' @ ts @ ''] '' @ match_group m 1 @ '': '' @ match_group m 2 @ rest
           \<and> timestamp two_of_apm ts
           \<and> newline \<notin> set (match_group m 1)
           \<and> (\<forall>j < length (match_group m 1). take 2 (drop j (match_group m 1 @ '': '')) \<noteq> '': '')
           \<and> match_group m 2 = takeWhile (\<lambda>x. x \<noteq> newline) (match_group m 2 @ rest)"
proof -
  from search_some [OF assms] obtain pre ms where
    l: "line = pre @ match_group m 0 @ fst (snd m)"
    and r: "run (Group 0 line_pattern) (rev pre, match_group m 0 @ fst (snd m), []) = m # ms"
    unfolding occurs_def by blast
  from group0_first [OF r] obtain m0 ms0 where
    r0: "run line_pattern (rev pre, match_group m 0 @ fst (snd m), []) = m0 # ms0"
    and g: "\<forall>n > 0. match_group m n = match_group m0 n"
    by blast
  from line_first [OF r0] obtain ts sender msg rest where
    a: "match_group m 0 @ fst (snd m) = ''['' @ ts @ ''] '' @ sender @ '': '' @ msg @ rest"
    and ts: "timestamp two_of_apm ts" and nl: "newline \<notin> set sender"
    and lazy: "\<forall>j < length sender. take 2 (drop j (sender @ '': '')) \<noteq> '': ''"
    and grd: "msg = takeWhile (\<lambda>x. x \<noteq> newline) (msg @ rest)"
    and g0: "snd (snd m0) = [(2, msg), (1, sender)]"
    by blast
  from g g0 have "match_group m 1 = sender" "match_group m 2 = msg"
    by (simp_all add: match_group_def)
  with l a ts nl lazy grd show ?thesis
    by (intro exI [of _ pre] exI [of _ ts] exI [of _ rest]) simp
qed

section \<open>Properties of the extractor\<close>

text \<open>
  C9. The line pattern is searched for, not anchored at the start of the line: the line
  \<open>junk [01/02/23, 3:45 PM] Bob: call me\<close>, with text before the bracketed timestamp,
  is parsed from the bracket on and gives a record, with sender \<open>Bob\<close> and message
  \<open>call me\<close>.
\<close>

theorem unanchored_line_gives_record:
  "extract_line ''junk [01/02/23, 3:45 PM] Bob: call me'' =
     Some \<lparr>sender = ''Bob'', business_name = ''Unknown Business'',
            contact = ''No Contact Found'', message = ''call me''\<rparr>"
  by code_simp

lemma transcript_line_bracket:
  assumes "transcript_line marker line"
  shows "contains ''] '' line"
proof -
  from assms obtain pre ts sender msg where
    "line = pre @ ''['' @ ts @ ''] '' @ sender @ '': '' @ msg"
    unfolding transcript_line_def by blast
  then have "line = (pre @ ''['' @ ts) @ ''] '' @ (sender @ '': '' @ msg)"
    by simp
  then show ?thesis
    unfolding contains_iff by blast
qed

lemma transcript_line_am_pm:
  assumes "transcript_line am_or_pm line"
  shows "contains ''AM] '' line \<or> contains ''PM] '' line"
proof -
  from assms obtain pre ts sender msg where
    l: "line = pre @ ''['' @ ts @ ''] '' @ sender @ '': '' @ msg" and "timestamp am_or_pm ts"
    unfolding transcript_line_def by blast
  then obtain u mk where ts: "ts = u @ mk" and mk: "mk = ''AM'' \<or> mk = ''PM''"
    unfolding timestamp_def am_or_pm_def by (metis append.assoc)
  from l ts have "line = (pre @ ''['' @ u) @ (mk @ ''] '') @ (sender @ '': '' @ msg)"
    by simp
  with mk show ?thesis
    unfolding contains_iff by (metis append_Cons append_Nil)
qed

text \<open>
  C1, as amended. A line gives no record unless it holds, somewhere, a bracketed
  timestamp \<open>DD/MM/YY, H:MM XY\<close> (one or two digits for the hour, \<open>X\<close> and \<open>Y\<close> each one of
  \<open>A\<close>, \<open>P\<close>, \<open>M\<close>), then a space, a sender without a line break, \<open>: \<close> and the message.
\<close>

theorem no_record_without_transcript_shape:
  "\<not> transcript_line two_of_apm line \<Longrightarrow> extract_line line = None"
proof -
  assume "\<not> transcript_line two_of_apm line"
  with line_search_iff [of line] have "re_search line_pattern line = None"
    by blast
  then show ?thesis
    by (simp add: extract_line_def)
qed

theorem no_record_without_transcript_shape_witness:
  "\<not> transcript_line two_of_apm ''Messages are end-to-end encrypted''
   \<and> extract_line ''Messages are end-to-end encrypted'' = None"
proof -
  have "\<not> contains ''] '' ''Messages are end-to-end encrypted''"
    by simp
  with transcript_line_bracket have h: "\<not> transcript_line two_of_apm ''Messages are end-to-end encrypted''"
    by blast
  from h no_record_without_transcript_shape [OF h] show ?thesis
    by simp
qed

text \<open>
  C1 as stated asks for an \<open>AM\<close> or \<open>PM\<close> marker. The line below has the marker \<open>MP\<close>, so it
  is not of that shape, and it gives a record.
\<close>

theorem am_pm_marker_counterexample:
  "\<not> transcript_line am_or_pm ''[01/02/23, 3:45 MP] Bob: call me''
   \<and> extract_line ''[01/02/23, 3:45 MP] Bob: call me'' =
       Some \<lparr>sender = ''Bob'', business_name = ''Unknown Business'',
              contact = ''No Contact Found'', message = ''call me''\<rparr>"
proof -
  have "\<not> (contains ''AM] '' ''[01/02/23, 3:45 MP] Bob: call me''
      \<or> contains ''PM] '' ''[01/02/23, 3:45 MP] Bob: call me'')"
    by simp
  with transcript_line_am_pm have "\<not> transcript_line am_or_pm ''[01/02/23, 3:45 MP] Bob: call me''"
    by blast
  moreover have "extract_line ''[01/02/23, 3:45 MP] Bob: call me'' =
       Some \<lparr>sender = ''Bob'', business_name = ''Unknown Business'',
              contact = ''No Contact Found'', message = ''call me''\<rparr>"
    by code_simp
  ultimately show ?thesis by blast
qed

text \<open>
  C4. For a line of the transcript shape, the extractor gives a record exactly when the
  message, in lower case, has one of the eight keywords as a substring, wherever it
  stands in a word.
\<close>

theorem keyword_decides_record:
  assumes "transcript_line two_of_apm line"
  shows "\<exists>m. re_search line_pattern line = Some m
           \<and> (extract_line line \<noteq> None \<longleftrightarrow>
                (\<exists>k \<in> {''recommend'', ''try'', ''call'', ''great'', ''looking for'',
                        ''know a good'', ''fixed my'', ''super reliable''}.
                   \<exists>u v. lower (match_group m 2) = u @ k @ v))"
proof -
  from assms line_search_iff [of line] obtain m where m: "re_search line_pattern line = Some m"
    by blast
  have "extract_line line \<noteq> None \<longleftrightarrow>
      (\<exists>k \<in> set keyword_list. contains k (lower (match_group m 2)))"
    by (simp add: extract_line_def m Let_def)
  also have "\<dots> \<longleftrightarrow> (\<exists>k \<in> {''recommend'', ''try'', ''call'', ''great'', ''looking for'',
                        ''know a good'', ''fixed my'', ''super reliable''}.
                   \<exists>u v. lower (match_group m 2) = u @ k @ v)"
    unfolding contains_iff by (simp add: keyword_list_def)
  finally have kw: "extract_line line \<noteq> None \<longleftrightarrow>
      (\<exists>k \<in> {''recommend'', ''try'', ''call'', ''great'', ''looking for'',
                        ''know a good'', ''fixed my'', ''super reliable''}.
                   \<exists>u v. lower (match_group m 2) = u @ k @ v)" .
  show ?thesis
    by (intro exI [of _ m] conjI m kw)
qed

theorem keyword_decides_record_witness:
  "transcript_line two_of_apm ''[01/02/23, 3:45 PM] Bob: you should retry it''
   \<and> (\<exists>m. re_search line_pattern ''[01/02/23, 3:45 PM] Bob: you should retry it'' = Some m
           \<and> (extract_line ''[01/02/23, 3:45 PM] Bob: you should retry it'' \<noteq> None \<longleftrightarrow>
                (\<exists>k \<in> {''recommend'', ''try'', ''call'', ''great'', ''looking for'',
                        ''know a good'', ''fixed my'', ''super reliable''}.
                   \<exists>u v. lower (match_group m 2) = u @ k @ v)))"
proof -
  have "re_search line_pattern ''[01/02/23, 3:45 PM] Bob: you should retry it'' \<noteq> None"
    by code_simp
  then have h: "transcript_line two_of_apm ''[01/02/23, 3:45 PM] Bob: you should retry it''"
    by (simp only: line_search_iff)
  from h keyword_decides_record [OF h] show ?thesis
    by (rule conjI)
qed

end
